theory Spec2Isabelle
  imports Main "HOL-Library.AList"
begin

section \<open>smart-storage: a model of \<^verbatim>\<open>src/index.ts\<close>\<close>

text \<open>
  The store engine of \<^verbatim>\<open>src/index.ts\<close> as state-passing functions. Every operation
  takes the store's state and returns the state it leaves behind; a call of
  \<^verbatim>\<open>Date.now()\<close> is an argument \<open>now\<close> of the operation that makes it. What the
  host provides and the repository does not define (\<^verbatim>\<open>JSON.stringify\<close>,
  \<^verbatim>\<open>JSON.parse\<close>, the coercion of a non-number to a number, and whether a call of
  the backend throws) is a parameter of the model.
\<close>

subsection \<open>JavaScript values\<close>

text \<open>
  The values a caller stores and \<^verbatim>\<open>JSON.parse\<close> returns. Numbers are integers
  (timestamps and TTLs in milliseconds); \<open>JUndefined\<close> is \<^verbatim>\<open>undefined\<close>, the
  "absent" of the specification; \<open>JBigInt\<close> is a \<^verbatim>\<open>bigint\<close>, a value that
  \<^verbatim>\<open>JSON.stringify\<close> refuses.
\<close>

datatype jsval =
    JUndefined
  | JNull
  | JBool bool
  | JNum int
  | JBigInt int
  | JStr string
  | JArr "jsval list"
  | JObj "(string \<times> jsval) list"

text \<open>\<^verbatim>\<open>!x\<close> is \<open>\<not> truthy x\<close>.\<close>

fun truthy :: "jsval \<Rightarrow> bool" where
  "truthy JUndefined = False"
| "truthy JNull = False"
| "truthy (JBool b) = b"
| "truthy (JNum n) = (n \<noteq> 0)"
| "truthy (JBigInt n) = (n \<noteq> 0)"
| "truthy (JStr s) = (s \<noteq> [])"
| "truthy (JArr xs) = True"
| "truthy (JObj kvs) = True"

text \<open>
  Property access \<^verbatim>\<open>x.name\<close> for the two names the code reads, \<^verbatim>\<open>v\<close> and
  \<^verbatim>\<open>e\<close>: an object yields the field or \<^verbatim>\<open>undefined\<close>; a number, a string, a
  boolean or an array has neither property. (The code reads a property only of a truthy
  value, so the \<^verbatim>\<open>TypeError\<close> of \<^verbatim>\<open>null.e\<close> is never reached.)
\<close>

fun js_get :: "jsval \<Rightarrow> string \<Rightarrow> jsval" where
  "js_get (JObj kvs) name = (case map_of kvs name of None \<Rightarrow> JUndefined | Some x \<Rightarrow> x)"
| "js_get x name = JUndefined"

subsection \<open>The host\<close>

text \<open>
  \<open>JSON_stringify\<close> is \<open>None\<close> where \<^verbatim>\<open>JSON.stringify\<close> throws (a value that
  cannot be serialized), \<open>JSON_parse\<close> is \<open>None\<close> where \<^verbatim>\<open>JSON.parse\<close> throws, and
  \<open>ToNumber\<close> is the host's coercion of a string, array or object to a number (\<open>None\<close>
  for \<^verbatim>\<open>NaN\<close>).
\<close>

record host =
  JSON_stringify :: "jsval \<Rightarrow> string option"
  JSON_parse :: "string \<Rightarrow> jsval option"
  ToNumber :: "jsval \<Rightarrow> int option"

text \<open>\<^verbatim>\<open>n > x\<close> for a number \<open>n\<close>: \<open>x\<close> is coerced to a number first, and every
  comparison with \<^verbatim>\<open>NaN\<close> is false.\<close>

definition js_gt :: "host \<Rightarrow> int \<Rightarrow> jsval \<Rightarrow> bool" where
  "js_gt h n x =
     (case x of
        JNum m \<Rightarrow> n > m
      | JBigInt m \<Rightarrow> n > m
      | JBool b \<Rightarrow> n > (if b then 1 else 0)
      | JNull \<Rightarrow> n > 0
      | JUndefined \<Rightarrow> False
      | _ \<Rightarrow> (case ToNumber h x of None \<Rightarrow> False | Some m \<Rightarrow> n > m))"

subsection \<open>\<^verbatim>\<open>types.ts\<close>\<close>

record SetOptions =
  ttl :: "int option"

datatype Change = ChSet string | ChRemove string | ChClear

subsection \<open>The backend: \<^verbatim>\<open>Storage\<close>\<close>

text \<open>
  A \<^verbatim>\<open>Storage\<close> holds its key/value pairs in enumeration order, as the \<^verbatim>\<open>Map\<close>
  of \<^verbatim>\<open>memoryStorage\<close> does: \<^verbatim>\<open>m.set\<close> overwrites a key where it stands or appends
  a new one (\<open>AList.update\<close>), \<^verbatim>\<open>m.delete\<close> drops it (\<open>AList.delete\<close>). The three
  \<open>_throws\<close> fields say for which calls the host surface throws (a full quota, a denied
  access), given the entries it holds; a call that throws changes nothing.
\<close>

datatype error = StorageError

record Storage =
  entries :: "(string \<times> string) list"
  setItem_throws :: "(string \<times> string) list \<Rightarrow> string \<Rightarrow> string \<Rightarrow> bool"
  removeItem_throws :: "(string \<times> string) list \<Rightarrow> string \<Rightarrow> bool"
  clear_throws :: "(string \<times> string) list \<Rightarrow> bool"

definition length' :: "Storage \<Rightarrow> nat" where
  "length' s = length (entries s)"

definition clear_all :: "Storage \<Rightarrow> error + Storage" where
  "clear_all s =
     (if clear_throws s (entries s) then Inl StorageError else Inr (s\<lparr>entries := []\<rparr>))"

definition getItem :: "Storage \<Rightarrow> string \<Rightarrow> string option" where
  "getItem s k = map_of (entries s) k"

definition key :: "Storage \<Rightarrow> nat \<Rightarrow> string option" where
  "key s i = (if i < length (entries s) then Some (fst (entries s ! i)) else None)"

definition removeItem :: "Storage \<Rightarrow> string \<Rightarrow> error + Storage" where
  "removeItem s k =
     (if removeItem_throws s (entries s) k then Inl StorageError
      else Inr (s\<lparr>entries := AList.delete k (entries s)\<rparr>))"

definition setItem :: "Storage \<Rightarrow> string \<Rightarrow> string \<Rightarrow> error + Storage" where
  "setItem s k v =
     (if setItem_throws s (entries s) k v then Inl StorageError
      else Inr (s\<lparr>entries := AList.update k v (entries s)\<rparr>))"

text \<open>The in-memory fallback: empty, and none of its calls throws.\<close>

definition memoryStorage :: Storage where
  "memoryStorage =
     \<lparr>entries = [], setItem_throws = (\<lambda>es k v. False),
      removeItem_throws = (\<lambda>es k. False), clear_throws = (\<lambda>es. False)\<rparr>"

subsection \<open>The store: backend and emitter\<close>

text \<open>
  A listener is named by a number (the identity of the function object) and does nothing
  but record the events it is called with. \<open>fns\<close> is the emitter's \<^verbatim>\<open>Set\<close> of
  listeners in insertion order. Two logs make the effects visible: \<open>published\<close> holds
  the argument of every call of \<^verbatim>\<open>emitter.emit\<close>, \<open>delivered\<close> every call of a
  listener.
\<close>

record Store =
  backing :: Storage
  fns :: "nat list"
  published :: "Change list"
  delivered :: "(nat \<times> Change) list"

definition on :: "nat \<Rightarrow> Store \<Rightarrow> Store" where
  "on fn st = st\<lparr>fns := (if fn \<in> set (fns st) then fns st else fns st @ [fn])\<rparr>"

text \<open>The handle \<^verbatim>\<open>() => fns.delete(fn)\<close> that \<^verbatim>\<open>on\<close> returns.\<close>

definition unsubscribe :: "nat \<Rightarrow> Store \<Rightarrow> Store" where
  "unsubscribe fn st = st\<lparr>fns := removeAll fn (fns st)\<rparr>"

definition emit :: "Change \<Rightarrow> Store \<Rightarrow> Store" where
  "emit c st =
     st\<lparr>published := published st @ [c],
        delivered := delivered st @ map (\<lambda>fn. (fn, c)) (fns st)\<rparr>"

text \<open>The events listener \<open>fn\<close> has been called with, in order.\<close>

definition received :: "nat \<Rightarrow> Store \<Rightarrow> Change list" where
  "received fn st = map snd (filter (\<lambda>d. fst d = fn) (delivered st))"

text \<open>\<^verbatim>\<open>make\<close>: the in-memory fallback stands in for a missing host surface. (The relay
  of the host's \<^verbatim>\<open>storage\<close> events, installed in a browser only, and the event
  filter of \<^verbatim>\<open>withPrefix(...).subscribe\<close> are not part of this model.)\<close>

definition make :: "Storage option \<Rightarrow> Store" where
  "make store =
     \<lparr>backing = (case store of None \<Rightarrow> memoryStorage | Some s \<Rightarrow> s),
      fns = [], published = [], delivered = []\<rparr>"

definition safeParse :: "host \<Rightarrow> string option \<Rightarrow> jsval" where
  "safeParse h raw =
     (case raw of
        None \<Rightarrow> JUndefined
      | Some r \<Rightarrow>
          if r = [] then JUndefined
          else (case JSON_parse h r of None \<Rightarrow> JUndefined | Some p \<Rightarrow> p))"

text \<open>\<^verbatim>\<open>opts?.ttl\<close>, and
  \<^verbatim>\<open>opts?.ttl ? { v: value, e: now() + opts.ttl } : { v: value }\<close>: the test is the
  truthiness of the number, so any TTL but zero passes it.\<close>

definition opts_ttl :: "SetOptions option \<Rightarrow> int option" where
  "opts_ttl opts = (case opts of None \<Rightarrow> None | Some opt \<Rightarrow> ttl opt)"

definition payload :: "int \<Rightarrow> jsval \<Rightarrow> SetOptions option \<Rightarrow> jsval" where
  "payload now v opts =
     (case opts_ttl opts of
        None \<Rightarrow> JObj [(''v'', v)]
      | Some t \<Rightarrow>
          if t \<noteq> 0 then JObj [(''v'', v), (''e'', JNum (now + t))]
          else JObj [(''v'', v)])"

definition set' :: "host \<Rightarrow> int \<Rightarrow> string \<Rightarrow> jsval \<Rightarrow> SetOptions option \<Rightarrow> Store \<Rightarrow> Store" where
  "set' h now k v opts st =
     (case JSON_stringify h (payload now v opts) of
        None \<Rightarrow> st
      | Some s \<Rightarrow>
          (case setItem (backing st) k s of
             Inl err \<Rightarrow> st
           | Inr b \<Rightarrow> emit (ChSet k) (st\<lparr>backing := b\<rparr>)))"

definition get :: "host \<Rightarrow> int \<Rightarrow> string \<Rightarrow> Store \<Rightarrow> jsval \<times> Store" where
  "get h now k st =
     (let parsed = safeParse h (getItem (backing st) k) in
      if \<not> truthy parsed then (JUndefined, st)
      else if truthy (js_get parsed ''e'') \<and> js_gt h now (js_get parsed ''e'') then
        (JUndefined,
         emit (ChRemove k)
           (case removeItem (backing st) k of
              Inl err \<Rightarrow> st
            | Inr b \<Rightarrow> st\<lparr>backing := b\<rparr>))
      else (js_get parsed ''v'', st))"

text \<open>\<^verbatim>\<open>try { ... } finally { emit }\<close>: the event is published either way, and an
  exception of the backend reaches the caller (\<open>Inl\<close>).\<close>

definition remove :: "string \<Rightarrow> Store \<Rightarrow> (error + unit) \<times> Store" where
  "remove k st =
     (case removeItem (backing st) k of
        Inl err \<Rightarrow> (Inl err, emit (ChRemove k) st)
      | Inr b \<Rightarrow> (Inr (), emit (ChRemove k) (st\<lparr>backing := b\<rparr>)))"

definition clear :: "Store \<Rightarrow> (error + unit) \<times> Store" where
  "clear st =
     (case clear_all (backing st) of
        Inl err \<Rightarrow> (Inl err, emit ChClear st)
      | Inr b \<Rightarrow> (Inr (), emit ChClear (st\<lparr>backing := b\<rparr>)))"

definition has :: "host \<Rightarrow> int \<Rightarrow> string \<Rightarrow> Store \<Rightarrow> bool \<times> Store" where
  "has h now k st = (case get h now k st of (x, st') \<Rightarrow> (x \<noteq> JUndefined, st'))"

text \<open>
  The loop of \<^verbatim>\<open>keys\<close>: \<open>i\<close> is the index, \<open>ks\<close> the array built so far, and
  \<open>clock i\<close> what \<^verbatim>\<open>Date.now()\<close> returns in the iteration at index \<open>i\<close>. The bound
  \<^verbatim>\<open>backing.length\<close> is read again in every iteration, from the state the calls of
  \<^verbatim>\<open>has\<close> have left.
\<close>

function keys_loop :: "host \<Rightarrow> (nat \<Rightarrow> int) \<Rightarrow> nat \<Rightarrow> string list \<Rightarrow> Store \<Rightarrow> string list \<times> Store" where
  "keys_loop h clock i ks st =
     (if i < length' (backing st) then
        (case key (backing st) i of
           None \<Rightarrow> keys_loop h clock (Suc i) ks st
         | Some k \<Rightarrow>
             if k = [] then keys_loop h clock (Suc i) ks st
             else keys_loop h clock (Suc i)
                    (if fst (has h (clock i) k st) then ks @ [k] else ks)
                    (snd (has h (clock i) k st)))
      else (ks, st))"
  by pat_completeness auto
termination
proof (relation "measure (\<lambda>(h, clock, i, ks, st). length (entries (backing st)) - i)")
  fix h :: host and clock :: "nat \<Rightarrow> int" and i :: nat and st :: Store and k :: string
  assume i: "i < length' (backing st)"
  have "length (AList.delete k (entries (backing st))) \<le> length (entries (backing st))"
    by (rule AList.length_delete_le)
  then have "length (entries (backing (snd (has h (clock i) k st)))) \<le> length (entries (backing st))"
    by (simp add: has_def get_def Let_def emit_def removeItem_def split: prod.splits sum.splits)
  with i show "((h, clock, Suc i, if fst (has h (clock i) k st) then ks @ [k] else ks,
                 snd (has h (clock i) k st)), (h, clock, i, ks, st))
               \<in> measure (\<lambda>(h, clock, i, ks, st). length (entries (backing st)) - i)" for ks
    by (simp add: length'_def)
qed (auto simp: length'_def)

declare keys_loop.simps [simp del]

definition keys :: "host \<Rightarrow> (nat \<Rightarrow> int) \<Rightarrow> Store \<Rightarrow> string list \<times> Store" where
  "keys h clock st = keys_loop h clock 0 [] st"

definition subscribe :: "nat \<Rightarrow> Store \<Rightarrow> Store" where
  "subscribe fn st = on fn st"

subsection \<open>\<^verbatim>\<open>withPrefix\<close>\<close>

text \<open>
  The facade that \<^verbatim>\<open>withPrefix(store, prefix)\<close> returns, over a store built by
  \<^verbatim>\<open>make\<close>. Strings are lists of code units: \<^verbatim>\<open>s.startsWith(p)\<close> compares the
  first \<open>length p\<close> of them, \<^verbatim>\<open>s.slice(n)\<close> drops \<open>n\<close>.
\<close>

definition startsWith :: "string \<Rightarrow> string \<Rightarrow> bool" where
  "startsWith s pre = (take (length pre) s = pre)"

definition slice :: "string \<Rightarrow> nat \<Rightarrow> string" where
  "slice s n = drop n s"

text \<open>\<^verbatim>\<open>const p = (k) => `${prefix}:${k}`\<close>\<close>

definition withPrefix_p :: "string \<Rightarrow> string \<Rightarrow> string" where
  "withPrefix_p prefix k = prefix @ '':'' @ k"

definition withPrefix_set ::
  "host \<Rightarrow> int \<Rightarrow> string \<Rightarrow> string \<Rightarrow> jsval \<Rightarrow> SetOptions option \<Rightarrow> Store \<Rightarrow> Store" where
  "withPrefix_set h now prefix k v opts st = set' h now (withPrefix_p prefix k) v opts st"

definition withPrefix_get :: "host \<Rightarrow> int \<Rightarrow> string \<Rightarrow> string \<Rightarrow> Store \<Rightarrow> jsval \<times> Store" where
  "withPrefix_get h now prefix k st = get h now (withPrefix_p prefix k) st"

definition withPrefix_remove :: "string \<Rightarrow> string \<Rightarrow> Store \<Rightarrow> (error + unit) \<times> Store" where
  "withPrefix_remove prefix k st = remove (withPrefix_p prefix k) st"

text \<open>The \<^verbatim>\<open>for ... of\<close> loop of \<^verbatim>\<open>clear\<close> over the array \<^verbatim>\<open>store.keys()\<close> returned;
  an exception of \<^verbatim>\<open>store.remove\<close> ends it.\<close>

fun withPrefix_clear_loop :: "string \<Rightarrow> string list \<Rightarrow> Store \<Rightarrow> (error + unit) \<times> Store" where
  "withPrefix_clear_loop prefix [] st = (Inr (), st)"
| "withPrefix_clear_loop prefix (k # ks) st =
     (if startsWith k (prefix @ '':'') then
        (case remove k st of
           (Inl err, st') \<Rightarrow> (Inl err, st')
         | (Inr u, st') \<Rightarrow> withPrefix_clear_loop prefix ks st')
      else withPrefix_clear_loop prefix ks st)"

definition withPrefix_clear ::
  "host \<Rightarrow> (nat \<Rightarrow> int) \<Rightarrow> string \<Rightarrow> Store \<Rightarrow> (error + unit) \<times> Store" where
  "withPrefix_clear h clock prefix st =
     (case keys h clock st of (ks, st') \<Rightarrow> withPrefix_clear_loop prefix ks st')"

definition withPrefix_has :: "host \<Rightarrow> int \<Rightarrow> string \<Rightarrow> string \<Rightarrow> Store \<Rightarrow> bool \<times> Store" where
  "withPrefix_has h now prefix k st = has h now (withPrefix_p prefix k) st"

definition withPrefix_keys ::
  "host \<Rightarrow> (nat \<Rightarrow> int) \<Rightarrow> string \<Rightarrow> Store \<Rightarrow> string list \<times> Store" where
  "withPrefix_keys h clock prefix st =
     (case keys h clock st of
        (ks, st') \<Rightarrow>
          (map (\<lambda>k. slice k (length prefix + 1))
             (filter (\<lambda>k. startsWith k (prefix @ '':'')) ks),
           st'))"

subsection \<open>Sequences of calls\<close>

text \<open>One call of the public surface, with the clock readings it makes; \<open>perform\<close> runs
  it and drops what it returns.\<close>

datatype call =
    Call_set int string jsval "SetOptions option"
  | Call_get int string
  | Call_remove string
  | Call_clear
  | Call_has int string
  | Call_keys "nat \<Rightarrow> int"
  | Call_subscribe nat
  | Call_unsubscribe nat
  | Call_prefix_set int string string jsval "SetOptions option"
  | Call_prefix_get int string string
  | Call_prefix_remove string string
  | Call_prefix_clear "nat \<Rightarrow> int" string
  | Call_prefix_has int string string
  | Call_prefix_keys "nat \<Rightarrow> int" string

fun perform :: "host \<Rightarrow> call \<Rightarrow> Store \<Rightarrow> Store" where
  "perform h (Call_set now k v opts) st = set' h now k v opts st"
| "perform h (Call_get now k) st = snd (get h now k st)"
| "perform h (Call_remove k) st = snd (remove k st)"
| "perform h Call_clear st = snd (clear st)"
| "perform h (Call_has now k) st = snd (has h now k st)"
| "perform h (Call_keys clock) st = snd (keys h clock st)"
| "perform h (Call_subscribe fn) st = subscribe fn st"
| "perform h (Call_unsubscribe fn) st = unsubscribe fn st"
| "perform h (Call_prefix_set now prefix k v opts) st = withPrefix_set h now prefix k v opts st"
| "perform h (Call_prefix_get now prefix k) st = snd (withPrefix_get h now prefix k st)"
| "perform h (Call_prefix_remove prefix k) st = snd (withPrefix_remove prefix k st)"
| "perform h (Call_prefix_clear clock prefix) st = snd (withPrefix_clear h clock prefix st)"
| "perform h (Call_prefix_has now prefix k) st = snd (withPrefix_has h now prefix k st)"
| "perform h (Call_prefix_keys clock prefix) st = snd (withPrefix_keys h clock prefix st)"

fun perform_all :: "host \<Rightarrow> call list \<Rightarrow> Store \<Rightarrow> Store" where
  "perform_all h [] st = st"
| "perform_all h (c # cs) st = perform_all h cs (perform h c st)"

subsection \<open>A host and stores for the examples\<close>

text \<open>
  A host whose JSON codec is tabulated on the envelopes the examples use, each with the
  text \<^verbatim>\<open>JSON.stringify\<close> gives it; every other value or text is refused.
\<close>

definition demo_json :: "(jsval \<times> string) list" where
  \<open>demo_json =
     [(JObj [(''v'', JNum 1)], ''{"v":1}''),
      (JObj [(''v'', JNum 2)], ''{"v":2}''),
      (JObj [(''v'', JNum 2), (''e'', JNum 5)], ''{"v":2,"e":5}''),
      (JObj [(''v'', JNum 1), (''e'', JNum 95)], ''{"v":1,"e":95}''),
      (JObj [(''v'', JNum 1), (''e'', JNum 0)], ''{"v":1,"e":0}''),
      (JObj [(''v'', JStr ''abc''), (''e'', JNum 1010)], ''{"v":"abc","e":1010}'')]\<close>

definition demo_host :: host where
  "demo_host =
     \<lparr>JSON_stringify = map_of demo_json,
      JSON_parse = map_of (map (\<lambda>(x, s). (s, x)) demo_json),
      ToNumber = (\<lambda>x. None)\<rparr>"

text \<open>A host surface whose quota is used up, and one that denies removal.\<close>

definition full_storage :: Storage where
  "full_storage = memoryStorage\<lparr>setItem_throws := (\<lambda>es k v. True)\<rparr>"

definition locked_storage :: "(string \<times> string) list \<Rightarrow> Storage" where
  "locked_storage es = memoryStorage\<lparr>entries := es, removeItem_throws := (\<lambda>es k. True)\<rparr>"

text \<open>Stores reached through the public calls from an empty in-memory fallback. The
  key with a TTL of 5 ms is written at time 0, so it has expired at time 100.\<close>

definition store_b_a :: Store where
  "store_b_a =
     perform_all demo_host
       [Call_set 0 ''b'' (JNum 2) (Some \<lparr>ttl = Some 5\<rparr>), Call_set 0 ''a'' (JNum 1) None]
       (make None)"

definition store_a_b :: Store where
  "store_a_b =
     perform_all demo_host
       [Call_set 0 ''a'' (JNum 1) None, Call_set 0 ''b'' (JNum 2) (Some \<lparr>ttl = Some 5\<rparr>)]
       (make None)"

definition store_z_pk :: Store where
  "store_z_pk =
     perform_all demo_host
       [Call_set 0 ''z'' (JNum 2) (Some \<lparr>ttl = Some 5\<rparr>),
        Call_prefix_set 100 ''p'' ''k'' (JNum 1) None]
       (make None)"

definition store_z_ax_by :: Store where
  "store_z_ax_by =
     perform_all demo_host
       [Call_set 0 ''z'' (JNum 2) (Some \<lparr>ttl = Some 5\<rparr>),
        Call_set 0 ''a:x'' (JNum 1) None, Call_set 0 ''b:y'' (JNum 2) None]
       (make None)"

definition store_ax_by :: Store where
  "store_ax_by =
     perform_all demo_host
       [Call_set 0 ''a:x'' (JNum 1) None, Call_set 0 ''b:y'' (JNum 2) None]
       (make None)"

section \<open>Properties\<close>

subsection \<open>Reading and writing the backend\<close>

lemma getItem_setItem: "setItem b k s = Inr b' \<Longrightarrow> getItem b' k = Some s"
  by (auto simp: setItem_def getItem_def update_conv' split: if_splits)

lemma set'_ok:
  assumes "JSON_stringify h (payload now v opts) = Some s"
    and "\<not> setItem_throws (backing st) (entries (backing st)) k s"
  shows "set' h now k v opts st =
     emit (ChSet k)
       (st\<lparr>backing := (backing st)\<lparr>entries := AList.update k s (entries (backing st))\<rparr>\<rparr>)"
  using assms by (simp add: set'_def setItem_def)

lemma getItem_set'_ok:
  assumes "JSON_stringify h (payload now v opts) = Some s"
    and "\<not> setItem_throws (backing st) (entries (backing st)) k s"
  shows "getItem (backing (set' h now k v opts st)) k = Some s"
  by (simp add: set'_ok [OF assms] emit_def getItem_def update_conv')

lemma get_absent: "getItem (backing st) k = None \<Longrightarrow> get h now k st = (JUndefined, st)"
  by (simp add: get_def safeParse_def)

lemma get_fresh:
  assumes "getItem (backing st) k = Some s" "s \<noteq> []" "JSON_parse h s = Some (JObj kvs)"
    and "\<not> (truthy (js_get (JObj kvs) ''e'') \<and> js_gt h now (js_get (JObj kvs) ''e''))"
  shows "get h now k st = (js_get (JObj kvs) ''v'', st)"
  using assms by (auto simp: get_def safeParse_def Let_def)

lemma get_expired:
  assumes "getItem (backing st) k = Some s" "s \<noteq> []" "JSON_parse h s = Some (JObj kvs)"
    and "truthy (js_get (JObj kvs) ''e'')" "js_gt h now (js_get (JObj kvs) ''e'')"
  shows "get h now k st =
     (JUndefined, emit (ChRemove k)
        (case removeItem (backing st) k of Inl err \<Rightarrow> st | Inr b \<Rightarrow> st\<lparr>backing := b\<rparr>))"
  using assms by (simp add: get_def safeParse_def Let_def)

lemma fst_has: "fst (has h now k st) = (fst (get h now k st) \<noteq> JUndefined)"
  by (simp add: has_def case_prod_beta)

lemma snd_has: "snd (has h now k st) = snd (get h now k st)"
  by (simp add: has_def case_prod_beta)

lemma getItem_after_get:
  "getItem (backing (snd (get h now k' st))) k = None
   \<or> getItem (backing (snd (get h now k' st))) k = getItem (backing st) k"
  by (auto simp: get_def Let_def emit_def removeItem_def getItem_def delete_conv'
      split: sum.splits)

lemma key_getItem: "key b i = Some k \<Longrightarrow> getItem b k \<noteq> None"
  by (auto simp: key_def getItem_def map_of_eq_None_iff split: if_splits
      intro!: image_eqI [where x = "entries b ! i"])

lemma emit_neq: "published st' = published st \<Longrightarrow> emit c st' \<noteq> st"
proof
  assume "published st' = published st" "emit c st' = st"
  then have "published (emit c st') = published st'"
    by simp
  then show False
    by (simp add: emit_def)
qed

lemma get_unchanged_value:
  assumes "snd (get h now k st) = st" "snd (get h now' k st) = st"
  shows "fst (get h now k st) = fst (get h now' k st)"
proof -
  have "emit (ChRemove k) (case removeItem (backing st) k of Inl err \<Rightarrow> st | Inr b \<Rightarrow> st\<lparr>backing := b\<rparr>)
      \<noteq> st"
    by (rule emit_neq) (simp split: sum.splits)
  with assms show ?thesis
    by (auto simp: get_def Let_def split: if_splits)
qed

text \<open>The definitions a closed example unfolds.\<close>

lemmas demo_defs =
  payload_def opts_ttl_def set'_def setItem_def make_def memoryStorage_def emit_def
  demo_host_def demo_json_def getItem_def get_def safeParse_def js_gt_def removeItem_def
  has_def keys_def keys_loop.simps length'_def key_def remove_def
  withPrefix_set_def withPrefix_has_def withPrefix_p_def withPrefix_keys_def
  withPrefix_clear_def startsWith_def slice_def

subsection \<open>Time to live\<close>






text \<open>
  C6, as the code has it. When the raw entry of \<open>k\<close> parses to an envelope whose expiry
  \<open>e\<close> is a number other than zero and \<open>e < now\<close>, \<open>get(k)\<close> returns \<^verbatim>\<open>undefined\<close>,
  publishes one \<open>Remove{k}\<close> (delivered to every listener), and leaves the backend
  without \<open>k\<close>, or as it was when the removal throws. When the raw entry is absent, empty
  or not parseable, \<open>get(k)\<close> returns \<^verbatim>\<open>undefined\<close> and changes nothing, so it
  publishes no event.
\<close>

theorem C6_get_expired_nonzero:
  "(getItem (backing st) k = Some raw \<and> raw \<noteq> [] \<and> JSON_parse h raw = Some (JObj kvs)
      \<and> map_of kvs ''e'' = Some (JNum e) \<and> e \<noteq> 0 \<and> e < now
    \<longrightarrow> fst (get h now k st) = JUndefined
        \<and> published (snd (get h now k st)) = published st @ [ChRemove k]
        \<and> delivered (snd (get h now k st))
            = delivered st @ map (\<lambda>fn. (fn, ChRemove k)) (fns st)
        \<and> backing (snd (get h now k st))
            = (if removeItem_throws (backing st) (entries (backing st)) k then backing st
               else (backing st)\<lparr>entries := AList.delete k (entries (backing st))\<rparr>))
   \<and> (getItem (backing st) k = None \<or> getItem (backing st) k = Some []
        \<or> (getItem (backing st) k = Some raw \<and> JSON_parse h raw = None)
      \<longrightarrow> get h now k st = (JUndefined, st))"
  by (auto simp: get_def safeParse_def Let_def js_gt_def emit_def removeItem_def)

text \<open>
  C6 as stated fails for the expiry 0, which \<^verbatim>\<open>parsed.e && ...\<close> reads as no expiry:
  \<open>set("k", 1, {ttl: -5})\<close> at time 5 stores the envelope \<^verbatim>\<open>{"v":1,"e":0}\<close>, and at
  time 7, after that expiry, \<open>get("k")\<close> returns 1 and changes nothing.
\<close>

theorem C6_zero_expiry_counterexample:
  \<open>getItem (backing (set' demo_host 5 ''k'' (JNum 1) (Some \<lparr>ttl = Some (- 5)\<rparr>) (make None)))
       ''k''
     = Some ''{"v":1,"e":0}''
   \<and> JSON_parse demo_host ''{"v":1,"e":0}'' = Some (JObj [(''v'', JNum 1), (''e'', JNum 0)])
   \<and> get demo_host 7 ''k''
       (set' demo_host 5 ''k'' (JNum 1) (Some \<lparr>ttl = Some (- 5)\<rparr>) (make None))
     = (JNum 1, set' demo_host 5 ''k'' (JNum 1) (Some \<lparr>ttl = Some (- 5)\<rparr>) (make None))\<close>
  by (simp add: demo_defs)

text \<open>A key written at time 0 with a TTL of 5 and read at time 100, and a key that was
  never written.\<close>

theorem C6_get_expired_nonzero_witness:
  "fst (get demo_host 100 ''b'' (set' demo_host 0 ''b'' (JNum 2) (Some \<lparr>ttl = Some 5\<rparr>) (make None)))
     = JUndefined
   \<and> published (snd (get demo_host 100 ''b''
        (set' demo_host 0 ''b'' (JNum 2) (Some \<lparr>ttl = Some 5\<rparr>) (make None))))
     = [ChSet ''b'', ChRemove ''b'']
   \<and> entries (backing (snd (get demo_host 100 ''b''
        (set' demo_host 0 ''b'' (JNum 2) (Some \<lparr>ttl = Some 5\<rparr>) (make None))))) = []
   \<and> get demo_host 100 ''absent'' (make None) = (JUndefined, make None)"
proof -
  let ?st = "set' demo_host 0 ''b'' (JNum 2) (Some \<lparr>ttl = Some 5\<rparr>) (make None)"
  have st: \<open>?st = \<lparr>backing = memoryStorage\<lparr>entries := [(''b'', ''{"v":2,"e":5}'')]\<rparr>,
      fns = [], published = [ChSet ''b''], delivered = []\<rparr>\<close>
    by (simp add: payload_def opts_ttl_def set'_def setItem_def make_def memoryStorage_def
        emit_def demo_host_def demo_json_def)
  have raw: \<open>getItem (backing ?st) ''b'' = Some ''{"v":2,"e":5}''\<close>
    by (simp add: st getItem_def)
  have par: \<open>JSON_parse demo_host ''{"v":2,"e":5}'' = Some (JObj [(''v'', JNum 2), (''e'', JNum 5)])\<close>
    by (simp add: demo_host_def demo_json_def)
  have none: "getItem (backing (make None)) ''absent'' = None"
    by (simp add: make_def memoryStorage_def getItem_def)
  show ?thesis
    using C6_get_expired_nonzero [where st = ?st and k = "''b''" and h = demo_host
          and kvs = "[(''v'', JNum 2), (''e'', JNum 5)]" and e = 5 and now = 100]
      C6_get_expired_nonzero [where st = "make None" and k = "''absent''" and h = demo_host
          and now = 100] raw par none
    by (simp add: st memoryStorage_def)
qed

subsection \<open>Failures of the backend\<close>

text \<open>
  C4. When the write of \<open>set(key, value)\<close> fails, because the host cannot serialize the
  envelope or because the backend throws, \<open>set\<close> returns the state it was given: nothing
  is stored and nothing published (and \<open>set\<close> has no exceptional result at all). When
  the write succeeds, \<open>set\<close> publishes exactly one event, \<open>Set{key}\<close>, delivers it to
  every listener, and the backend holds the serialized envelope.
\<close>

theorem C4_set_failure_is_silent:
  "(JSON_stringify h (payload now v opts) = None \<longrightarrow> set' h now k v opts st = st)
   \<and> (JSON_stringify h (payload now v opts) = Some s
        \<and> setItem_throws (backing st) (entries (backing st)) k s
      \<longrightarrow> set' h now k v opts st = st)
   \<and> (JSON_stringify h (payload now v opts) = Some s
        \<and> \<not> setItem_throws (backing st) (entries (backing st)) k s
      \<longrightarrow> published (set' h now k v opts st) = published st @ [ChSet k]
          \<and> delivered (set' h now k v opts st)
              = delivered st @ map (\<lambda>fn. (fn, ChSet k)) (fns st)
          \<and> getItem (backing (set' h now k v opts st)) k = Some s)"
  by (auto simp: set'_def setItem_def emit_def getItem_def update_conv')

text \<open>A value that cannot be serialized (a \<^verbatim>\<open>bigint\<close>), a backend whose quota is used
  up, and a write that succeeds.\<close>

theorem C4_set_failure_is_silent_witness:
  "set' demo_host 0 ''k'' (JBigInt 1) None (make None) = make None
   \<and> set' demo_host 0 ''k'' (JNum 1) None (make (Some full_storage)) = make (Some full_storage)
   \<and> published (set' demo_host 0 ''k'' (JNum 1) None (make None)) = [ChSet ''k'']"
proof -
  have none: "JSON_stringify demo_host (payload 0 (JBigInt 1) None) = None"
    by (simp add: payload_def opts_ttl_def demo_host_def demo_json_def)
  have ser: \<open>JSON_stringify demo_host (payload 0 (JNum 1) None) = Some ''{"v":1}''\<close>
    by (simp add: payload_def opts_ttl_def demo_host_def demo_json_def)
  have full: "setItem_throws (backing (make (Some full_storage)))
      (entries (backing (make (Some full_storage)))) k s" for k s
    by (simp add: make_def full_storage_def memoryStorage_def)
  have room: "\<not> setItem_throws (backing (make None)) (entries (backing (make None))) k s" for k s
    by (simp add: make_def memoryStorage_def)
  have pub: "published (make None) = []"
    by (simp add: make_def)
  show ?thesis
    using C4_set_failure_is_silent [where h = demo_host and now = 0 and v = "JBigInt 1"
          and opts = None and k = "''k''" and st = "make None"]
      C4_set_failure_is_silent [where h = demo_host and now = 0 and v = "JNum 1"
          and opts = None and k = "''k''" and st = "make (Some full_storage)"]
      C4_set_failure_is_silent [where h = demo_host and now = 0 and v = "JNum 1"
          and opts = None and k = "''k''" and st = "make None"]
      none ser full room pub
    by simp
qed

text \<open>
  C5, as the code has it. Whether or not \<open>k\<close> existed, and whether or not the backend
  removal throws, \<open>remove(k)\<close> publishes exactly one event, \<open>Remove{k}\<close>, and delivers
  it to every listener. When the backend removal does not throw, \<open>remove\<close> returns
  normally and \<open>get(k)\<close> afterwards returns \<^verbatim>\<open>undefined\<close> and changes nothing.
\<close>

theorem C5_remove_publishes_once:
  "published (snd (remove k st)) = published st @ [ChRemove k]
   \<and> delivered (snd (remove k st)) = delivered st @ map (\<lambda>fn. (fn, ChRemove k)) (fns st)
   \<and> (\<not> removeItem_throws (backing st) (entries (backing st)) k
      \<longrightarrow> fst (remove k st) = Inr ()
          \<and> get h now k (snd (remove k st)) = (JUndefined, snd (remove k st)))"
proof -
  have "getItem (backing (snd (remove k st))) k = None"
    if "\<not> removeItem_throws (backing st) (entries (backing st)) k"
    using that by (simp add: remove_def removeItem_def emit_def getItem_def delete_conv')
  then show ?thesis
    by (auto simp: get_absent) (simp_all add: remove_def removeItem_def emit_def)
qed

text \<open>
  C5 as stated fails when the backend removal throws: \<^verbatim>\<open>try { ... } finally { ... }\<close>
  has no \<^verbatim>\<open>catch\<close>, so the exception reaches the caller, the entry stays, and
  \<open>get("k")\<close> afterwards returns the value.
\<close>

theorem C5_removal_failure_counterexample:
  \<open>fst (remove ''k'' (make (Some (locked_storage [(''k'', ''{"v":1}'')])))) = Inl StorageError
   \<and> fst (get demo_host 0 ''k''
        (snd (remove ''k'' (make (Some (locked_storage [(''k'', ''{"v":1}'')]))))))
       = JNum 1\<close>
  by (simp add: locked_storage_def demo_defs)

text \<open>Removing a key that was written, and one that never was.\<close>

theorem C5_remove_publishes_once_witness:
  "published (snd (remove ''k'' (set' demo_host 0 ''k'' (JNum 1) None (make None))))
     = [ChSet ''k'', ChRemove ''k'']
   \<and> fst (get demo_host 0 ''k'' (snd (remove ''k'' (set' demo_host 0 ''k'' (JNum 1) None (make None)))))
     = JUndefined
   \<and> published (snd (remove ''absent'' (make None))) = [ChRemove ''absent'']
   \<and> fst (get demo_host 0 ''absent'' (snd (remove ''absent'' (make None)))) = JUndefined"
proof -
  have ok: "\<not> removeItem_throws (backing (set' demo_host 0 ''k'' (JNum 1) None (make None)))
      (entries (backing (set' demo_host 0 ''k'' (JNum 1) None (make None)))) ''k''"
    by (simp add: set'_def payload_def opts_ttl_def demo_host_def demo_json_def setItem_def
        make_def memoryStorage_def emit_def)
  have ok': "\<not> removeItem_throws (backing (make None)) (entries (backing (make None))) ''absent''"
    by (simp add: make_def memoryStorage_def)
  have pub: "published (set' demo_host 0 ''k'' (JNum 1) None (make None)) = [ChSet ''k'']"
    by (simp add: set'_def payload_def opts_ttl_def demo_host_def demo_json_def setItem_def
        make_def memoryStorage_def emit_def)
  have pub': "published (make None) = []"
    by (simp add: make_def)
  show ?thesis
    using C5_remove_publishes_once [where k = "''k''" and h = demo_host and now = 0
          and st = "set' demo_host 0 ''k'' (JNum 1) None (make None)"]
      C5_remove_publishes_once [where k = "''absent''" and st = "make None"
          and h = demo_host and now = 0] ok ok' pub pub'
    by simp
qed

subsection \<open>Enumeration\<close>

lemma keys_loop_no_empty:
  "[] \<notin> set ks \<Longrightarrow> [] \<notin> set (fst (keys_loop h clock i ks st))"
proof (induction h clock i ks st rule: keys_loop.induct)
  case (1 h clock i ks st)
  show ?case
    using "1.IH" "1.prems"
    by (subst keys_loop.simps) (auto split: option.splits)
qed

text \<open>
  C10. Whatever the state of the store, the host and the clock, the empty string is not
  among the keys that \<open>keys()\<close> returns: \<^verbatim>\<open>if (!k) continue\<close> skips it as it skips an
  absent slot.
\<close>

theorem C10_keys_never_empty_key: "'''' \<notin> set (fst (keys h clock st))"
  by (simp add: keys_def keys_loop_no_empty)

text \<open>After \<open>set("", 1)\<close> on an empty in-memory store, \<open>get("")\<close> returns 1 and
  \<open>keys()\<close> returns no key.\<close>

theorem C10_keys_never_empty_key_witness:
  "fst (get demo_host 0 '''' (set' demo_host 0 '''' (JNum 1) None (make None))) = JNum 1
   \<and> fst (keys demo_host (\<lambda>i. 0) (set' demo_host 0 '''' (JNum 1) None (make None))) = []
   \<and> '''' \<notin> set (fst (keys demo_host (\<lambda>i. 0) (set' demo_host 0 '''' (JNum 1) None (make None))))"
  using C10_keys_never_empty_key
    [of demo_host "\<lambda>i. 0" "set' demo_host 0 '''' (JNum 1) None (make None)"]
  by (simp add: demo_defs)

text \<open>
  C2 says that \<open>keys()\<close> returns exactly the keys for which \<open>has\<close> is true, every
  non-expired key of the backend among them. The code does not: when \<open>has\<close> purges an
  expired key at index \<open>i\<close>, the keys behind it move down by one and the loop goes on at
  \<open>i + 1\<close>, so the key that moved into slot \<open>i\<close> is never looked at. With \<open>b\<close> (TTL 5)
  written before \<open>a\<close> (no TTL), at time 100 \<open>has("a")\<close> is true and \<open>keys()\<close> returns
  nothing; written in the order of the test suite, \<open>a\<close> before \<open>b\<close>, \<open>keys()\<close>
  returns \<open>a\<close>.
\<close>

theorem C2_keys_skips_live_key:
  "fst (has demo_host 100 ''a'' store_b_a)
   \<and> fst (keys demo_host (\<lambda>i. 100) store_b_a) = []
   \<and> fst (keys demo_host (\<lambda>i. 100) store_a_b) = [''a'']"
  by (simp add: store_b_a_def store_a_b_def demo_defs)

text \<open>
  What the enumeration does guarantee. A key whose envelope has a nonzero expiry that
  every clock reading of the scan has passed is never listed.
\<close>

lemma keys_loop_excludes_expired:
  "raw \<noteq> [] \<Longrightarrow> JSON_parse h raw = Some (JObj kvs) \<Longrightarrow> map_of kvs ''e'' = Some (JNum e) \<Longrightarrow>
   e \<noteq> 0 \<Longrightarrow> \<forall>i. e < clock i \<Longrightarrow>
   getItem (backing st) k = None \<or> getItem (backing st) k = Some raw \<Longrightarrow>
   k \<notin> set ks \<Longrightarrow> k \<notin> set (fst (keys_loop h clock i ks st))"
proof (induction h clock i ks st rule: keys_loop.induct)
  case (1 h clock i ks st)
  note raw = "1.prems"(1) and par = "1.prems"(2) and e = "1.prems"(3,4) and past = "1.prems"(5)
    and inv = "1.prems"(6) and ks = "1.prems"(7)
  show ?case
  proof (cases "i < length' (backing st)")
    case False
    then show ?thesis
      using ks by (subst keys_loop.simps) simp
  next
    case i: True
    show ?thesis
    proof (cases "key (backing st) i")
      case None
      with i "1.IH"(1) [OF i None raw par e past inv ks] show ?thesis
        by (subst keys_loop.simps) simp
    next
      case (Some k')
      show ?thesis
      proof (cases "k' = []")
        case True
        with i Some "1.IH"(2) [OF i Some True raw par e past inv ks] show ?thesis
          by (subst keys_loop.simps) simp
      next
        case ne: False
        let ?st' = "snd (has h (clock i) k' st)"
        let ?ks' = "if fst (has h (clock i) k' st) then ks @ [k'] else ks"
        have inv': "getItem (backing ?st') k = None \<or> getItem (backing ?st') k = Some raw"
          using getItem_after_get [of h "clock i" k' st k] inv by (auto simp: snd_has)
        have ks': "k \<notin> set ?ks'"
        proof (cases "k' = k")
          case True
          with Some inv have "getItem (backing st) k = Some raw"
            using key_getItem [OF Some] by auto
          moreover have "truthy (js_get (JObj kvs) ''e'')"
            and "js_gt h (clock i) (js_get (JObj kvs) ''e'')"
            using e past by (simp_all add: js_gt_def)
          ultimately have "fst (get h (clock i) k st) = JUndefined"
            using raw par by (simp add: get_expired)
          with True ks show ?thesis
            by (simp add: fst_has)
        next
          case False
          with ks show ?thesis by simp
        qed
        from "1.IH"(3) [OF i Some ne raw par e past inv' ks'] i Some ne show ?thesis
          by (subst keys_loop.simps) simp
      qed
    qed
  qed
qed

lemma keys_never_lists_expired:
  assumes "getItem (backing st) k = Some raw" "raw \<noteq> []" "JSON_parse h raw = Some (JObj kvs)"
    and "map_of kvs ''e'' = Some (JNum e)" "e \<noteq> 0" "\<forall>i. e < clock i"
  shows "k \<notin> set (fst (keys h clock st))"
  unfolding keys_def
  using keys_loop_excludes_expired [OF assms(2-6), of st k "[]" 0] assms(1) by simp

text \<open>
  When the scan purges nothing (no \<open>get\<close> of a key of the backend changes the state,
  at any clock reading of the scan), \<open>keys()\<close> changes nothing and returns, in the
  order of the backend, exactly the non-empty keys for which \<open>has\<close> is true. The
  skipped slot is the only way a key that \<open>has\<close> accepts can be missing.
\<close>

lemma keys_loop_without_purge:
  assumes quiet: "\<forall>k \<in> fst ` set (entries (backing st)). \<forall>i. snd (get h (clock i) k st) = st"
  shows "keys_loop h clock i ks st =
     (ks @ filter (\<lambda>k. k \<noteq> [] \<and> fst (has h (clock 0) k st))
             (drop i (map fst (entries (backing st)))), st)"
proof (induction "length (entries (backing st)) - i" arbitrary: i ks)
  case 0
  then show ?case
    by (subst keys_loop.simps) (simp add: length'_def)
next
  case (Suc n)
  then have i: "i < length (entries (backing st))" and n: "n = length (entries (backing st)) - Suc i"
    by auto
  let ?k = "fst (entries (backing st) ! i)"
  have k: "key (backing st) i = Some ?k"
    using i by (simp add: key_def)
  have mem: "?k \<in> fst ` set (entries (backing st))"
    using i by auto
  have same: "snd (has h (clock i) ?k st) = st"
    using quiet [rule_format, OF mem] by (simp add: snd_has)
  have val: "fst (has h (clock i) ?k st) = fst (has h (clock 0) ?k st)"
    using get_unchanged_value [OF quiet [rule_format, OF mem] quiet [rule_format, OF mem],
        of i 0]
    by (simp add: fst_has)
  have drop: "drop i (map fst (entries (backing st))) = ?k # drop (Suc i) (map fst (entries (backing st)))"
    using i by (simp add: Cons_nth_drop_Suc [symmetric])
  show ?case
    using i k same val Suc.hyps(1) [OF n]
    by (subst keys_loop.simps) (simp add: length'_def drop)
qed

lemma keys_without_purge:
  assumes "\<forall>k \<in> fst ` set (entries (backing st)). \<forall>i. snd (get h (clock i) k st) = st"
  shows "keys h clock st =
     (filter (\<lambda>k. k \<noteq> [] \<and> fst (has h (clock 0) k st)) (map fst (entries (backing st))), st)"
  by (simp add: keys_def keys_loop_without_purge [OF assms])

subsection \<open>Namespaces\<close>

text \<open>
  C7 says that after \<open>withPrefix(store, p).set(k, v)\<close> the underlying store reads \<open>v\<close>
  under \<open>p:k\<close> and the namespaced \<open>keys()\<close> includes \<open>k\<close>. The first holds; the second
  fails through the skipped slot of \<open>keys\<close>: with an expired key \<open>z\<close> in front of
  \<open>p:k\<close>, the store reads 1 under \<open>p:k\<close>, \<open>has("k")\<close> is true in the namespace, and
  its \<open>keys()\<close> is empty.
\<close>

theorem C7_prefixed_key_missing:
  "fst (get demo_host 100 ''p:k'' store_z_pk) = JNum 1
   \<and> fst (withPrefix_has demo_host 100 ''p'' ''k'' store_z_pk)
   \<and> fst (withPrefix_keys demo_host (\<lambda>i. 100) ''p'' store_z_pk) = []"
  by (simp add: store_z_pk_def demo_defs)

text \<open>
  C8 says that \<open>clear()\<close> on the namespace \<open>a\<close> removes every key of the underlying
  store under \<open>a:\<close> and leaves the others. Without an expired key in front it does; with
  the expired key \<open>z\<close> in front of \<open>a:x\<close> and \<open>b:y\<close>, \<open>keys()\<close> skips \<open>a:x\<close>, so
  \<open>clear()\<close> returns normally and \<open>a:x\<close> is still read afterwards.
\<close>

theorem C8_prefixed_key_survives_clear:
  "fst (withPrefix_clear demo_host (\<lambda>i. 100) ''a'' store_z_ax_by) = Inr ()
   \<and> fst (get demo_host 100 ''a:x''
        (snd (withPrefix_clear demo_host (\<lambda>i. 100) ''a'' store_z_ax_by))) = JNum 1
   \<and> fst (get demo_host 100 ''a:x''
        (snd (withPrefix_clear demo_host (\<lambda>i. 100) ''a'' store_ax_by))) = JUndefined
   \<and> fst (get demo_host 100 ''b:y''
        (snd (withPrefix_clear demo_host (\<lambda>i. 100) ''a'' store_ax_by))) = JNum 2"
  by (simp add: store_z_ax_by_def store_ax_by_def demo_defs)

text \<open>
  What the namespace does guarantee. The value written through it is read under the
  qualified key; when the scan purges nothing, its \<open>keys()\<close> lists the key just
  written, and its \<open>clear()\<close> (on a backend whose removal does not throw) removes
  exactly the keys under the prefix that \<open>has\<close> accepts and leaves every other entry
  of the backend in place.
\<close>

lemma startsWith_Nil [simp]: "\<not> startsWith [] (prefix @ '':'')"
  by (simp add: startsWith_def)

lemma startsWith_withPrefix_p: "startsWith (withPrefix_p prefix k) (prefix @ '':'')"
  by (simp add: startsWith_def withPrefix_p_def)

lemma slice_withPrefix_p: "slice (withPrefix_p prefix k) (length prefix + 1) = k"
  by (simp add: slice_def withPrefix_p_def)

lemma withPrefix_set_get:
  assumes ser: "JSON_stringify h (payload now v None) = Some s" and s: "s \<noteq> []"
    and par: "JSON_parse h s = Some (payload now v None)"
    and quota: "\<not> setItem_throws (backing st) (entries (backing st)) (prefix @ '':'' @ k) s"
  shows "get h now' (prefix @ '':'' @ k) (withPrefix_set h now prefix k v None st)
     = (v, withPrefix_set h now prefix k v None st)"
proof -
  have pay: "payload now v None = JObj [(''v'', v)]"
    by (simp add: payload_def opts_ttl_def)
  have raw: "getItem (backing (withPrefix_set h now prefix k v None st)) (prefix @ '':'' @ k) = Some s"
    using getItem_set'_ok [OF ser quota] by (simp add: withPrefix_set_def withPrefix_p_def)
  from get_fresh [OF raw s par [unfolded pay], of now'] show ?thesis
    by simp
qed

lemma withPrefix_keys_without_purge:
  assumes "\<forall>k \<in> fst ` set (entries (backing st)). \<forall>i. snd (get h (clock i) k st) = st"
  shows "withPrefix_keys h clock prefix st =
     (map (\<lambda>k. slice k (length prefix + 1))
        (filter (\<lambda>k. startsWith k (prefix @ '':'') \<and> fst (has h (clock 0) k st))
           (map fst (entries (backing st)))), st)"
proof -
  have "filter (\<lambda>k. startsWith k (prefix @ '':''))
          (filter (\<lambda>k. k \<noteq> [] \<and> fst (has h (clock 0) k st)) (map fst (entries (backing st))))
        = filter (\<lambda>k. startsWith k (prefix @ '':'') \<and> fst (has h (clock 0) k st))
            (map fst (entries (backing st)))"
    by (auto intro!: filter_cong)
  then show ?thesis
    by (simp add: withPrefix_keys_def keys_without_purge [OF assms])
qed

lemma withPrefix_keys_includes:
  assumes ser: "JSON_stringify h (payload now v None) = Some s" and s: "s \<noteq> []"
    and par: "JSON_parse h s = Some (payload now v None)"
    and quota: "\<not> setItem_throws (backing st) (entries (backing st)) (prefix @ '':'' @ k) s"
    and v: "v \<noteq> JUndefined"
    and quiet: "\<forall>k' \<in> fst ` set (entries (backing (withPrefix_set h now prefix k v None st))).
        \<forall>i. snd (get h (clock i) k' (withPrefix_set h now prefix k v None st))
          = withPrefix_set h now prefix k v None st"
  shows "k \<in> set (fst (withPrefix_keys h clock prefix (withPrefix_set h now prefix k v None st)))"
proof -
  let ?st1 = "withPrefix_set h now prefix k v None st"
  let ?q = "withPrefix_p prefix k"
  have q: "?q = prefix @ '':'' @ k"
    by (simp add: withPrefix_p_def)
  have "fst (get h (clock 0) ?q ?st1) = v"
    using withPrefix_set_get [OF ser s par quota, of "clock 0"] by (simp add: q)
  with v have has: "fst (has h (clock 0) ?q ?st1)"
    by (simp add: fst_has)
  have "entries (backing ?st1) = AList.update ?q s (entries (backing st))"
    using set'_ok [OF ser, of st ?q] quota by (simp add: withPrefix_set_def q emit_def)
  then have mem: "?q \<in> set (map fst (entries (backing ?st1)))"
    by (simp add: dom_update)
  have "slice ?q (length prefix + 1) \<in>
      (\<lambda>k. slice k (length prefix + 1)) `
        {k \<in> set (map fst (entries (backing ?st1))).
           startsWith k (prefix @ '':'') \<and> fst (has h (clock 0) k ?st1)}"
    using mem has startsWith_withPrefix_p by blast
  then show ?thesis
    unfolding withPrefix_keys_without_purge [OF quiet] slice_withPrefix_p by simp
qed

lemma withPrefix_clear_loop_entries:
  assumes "\<forall>es k. \<not> removeItem_throws (backing st) es k"
  shows "fst (withPrefix_clear_loop prefix ks st) = Inr ()
       \<and> entries (backing (snd (withPrefix_clear_loop prefix ks st)))
         = filter (\<lambda>(k, x). \<not> (k \<in> set ks \<and> startsWith k (prefix @ '':'')))
             (entries (backing st))"
  using assms
proof (induction ks arbitrary: st)
  case Nil
  then show ?case by simp
next
  case (Cons k ks)
  show ?case
  proof (cases "startsWith k (prefix @ '':'')")
    case False
    with Cons.IH [OF Cons.prems] show ?thesis
      by (auto intro!: filter_cong)
  next
    case True
    let ?st' = "emit (ChRemove k)
        (st\<lparr>backing := (backing st)\<lparr>entries := AList.delete k (entries (backing st))\<rparr>\<rparr>)"
    have rm: "remove k st = (Inr (), ?st')"
      using Cons.prems by (simp add: remove_def removeItem_def)
    have "\<forall>es k. \<not> removeItem_throws (backing ?st') es k"
      using Cons.prems by (simp add: emit_def)
    from Cons.IH [OF this] True rm show ?thesis
      by (auto simp: emit_def AList.delete_eq intro!: filter_cong)
  qed
qed

lemma withPrefix_clear_without_purge:
  assumes quiet: "\<forall>k \<in> fst ` set (entries (backing st)). \<forall>i. snd (get h (clock i) k st) = st"
    and ok: "\<forall>es k. \<not> removeItem_throws (backing st) es k"
  shows "fst (withPrefix_clear h clock prefix st) = Inr ()
     \<and> entries (backing (snd (withPrefix_clear h clock prefix st)))
        = filter (\<lambda>(k, x). \<not> (startsWith k (prefix @ '':'') \<and> fst (has h (clock 0) k st)))
            (entries (backing st))"
proof -
  let ?ks = "filter (\<lambda>k. k \<noteq> [] \<and> fst (has h (clock 0) k st)) (map fst (entries (backing st)))"
  have keys: "keys h clock st = (?ks, st)"
    by (rule keys_without_purge [OF quiet])
  have "filter (\<lambda>(k, x). \<not> (k \<in> set ?ks \<and> startsWith k (prefix @ '':''))) (entries (backing st))
      = filter (\<lambda>(k, x). \<not> (startsWith k (prefix @ '':'') \<and> fst (has h (clock 0) k st)))
          (entries (backing st))"
    by (rule filter_cong) (auto intro: rev_image_eqI)
  with withPrefix_clear_loop_entries [OF ok, of prefix ?ks] show ?thesis
    by (simp add: withPrefix_clear_def keys)
qed

lemma get_publishes_removes:
  "\<exists>evs. published (snd (get h now k st)) = published st @ evs \<and> set evs \<subseteq> range ChRemove"
  by (cases "removeItem (backing st) k") (auto simp: get_def Let_def emit_def)

lemma keys_loop_publishes_removes:
  "\<exists>evs. published (snd (keys_loop h clock i ks st)) = published st @ evs
         \<and> set evs \<subseteq> range ChRemove"
proof (induction h clock i ks st rule: keys_loop.induct)
  case (1 h clock i ks st)
  show ?case
  proof (cases "i < length' (backing st)")
    case False
    then show ?thesis
      by (subst keys_loop.simps) simp
  next
    case i: True
    show ?thesis
    proof (cases "key (backing st) i")
      case None
      with i "1.IH"(1) [OF i None] show ?thesis
        by (subst keys_loop.simps) simp
    next
      case (Some k)
      show ?thesis
      proof (cases "k = []")
        case True
        with i Some "1.IH"(2) [OF i Some True] show ?thesis
          by (subst keys_loop.simps) simp
      next
        case False
        obtain evs where evs: "published (snd (has h (clock i) k st)) = published st @ evs"
            "set evs \<subseteq> range ChRemove"
          using get_publishes_removes [of h "clock i" k st] by (auto simp: snd_has)
        from "1.IH"(3) [OF i Some False] obtain evs' where
          "published (snd (keys_loop h clock (Suc i)
              (if fst (has h (clock i) k st) then ks @ [k] else ks) (snd (has h (clock i) k st))))
            = published (snd (has h (clock i) k st)) @ evs'"
          "set evs' \<subseteq> range ChRemove"
          by blast
        with evs i Some False show ?thesis
          by (subst keys_loop.simps) (auto intro!: exI [of _ "evs @ evs'"])
      qed
    qed
  qed
qed

lemma withPrefix_clear_loop_publishes_removes:
  "\<exists>evs. published (snd (withPrefix_clear_loop prefix ks st)) = published st @ evs
         \<and> set evs \<subseteq> range ChRemove"
proof (induction ks arbitrary: st)
  case Nil
  then show ?case by simp
next
  case (Cons k ks)
  have r: "published (snd (remove k st)) = published st @ [ChRemove k]"
    by (simp add: remove_def emit_def split: sum.splits)
  show ?case
  proof (cases "startsWith k (prefix @ '':'')")
    case False
    with Cons.IH [of st] show ?thesis by simp
  next
    case True
    show ?thesis
    proof (cases "fst (remove k st)")
      case (Inl err)
      with True r show ?thesis
        by (auto simp: case_prod_beta split: sum.splits)
    next
      case (Inr u)
      from Cons.IH [of "snd (remove k st)"] obtain evs where
        "published (snd (withPrefix_clear_loop prefix ks (snd (remove k st))))
           = published (snd (remove k st)) @ evs" "set evs \<subseteq> range ChRemove"
        by blast
      with True Inr r show ?thesis
        by (auto simp: case_prod_beta split: sum.splits intro!: exI [of _ "ChRemove k # evs"])
    qed
  qed
qed

text \<open>The namespaced \<open>clear\<close> publishes \<open>Remove\<close> events only: it never calls the
  underlying \<open>clear\<close>.\<close>

lemma withPrefix_clear_publishes_removes:
  "\<exists>evs. published (snd (withPrefix_clear h clock prefix st)) = published st @ evs
         \<and> set evs \<subseteq> range ChRemove \<and> ChClear \<notin> set evs"
proof -
  obtain evs where 1: "published (snd (keys h clock st)) = published st @ evs"
      "set evs \<subseteq> range ChRemove"
    using keys_loop_publishes_removes [of h clock 0 "[]" st] by (auto simp: keys_def)
  obtain evs' where 2: "published (snd (withPrefix_clear_loop prefix (fst (keys h clock st))
        (snd (keys h clock st)))) = published (snd (keys h clock st)) @ evs'"
      "set evs' \<subseteq> range ChRemove"
    using withPrefix_clear_loop_publishes_removes by blast
  from 1 2 show ?thesis
    by (auto simp: withPrefix_clear_def case_prod_beta intro!: exI [of _ "evs @ evs'"])
qed

subsection \<open>Subscribers\<close>

lemma filter_eq_distinct: "distinct xs \<Longrightarrow> x \<in> set xs \<Longrightarrow> filter (\<lambda>y. y = x) xs = [x]"
  by (induction xs) (auto simp: filter_empty_conv)

lemma received_emit_in:
  "distinct (fns st) \<Longrightarrow> fn \<in> set (fns st) \<Longrightarrow> received fn (emit c st) = received fn st @ [c]"
  by (simp add: received_def emit_def filter_map o_def filter_eq_distinct)

lemma received_emit_out:
  "fn \<notin> set (fns st) \<Longrightarrow> received fn (emit c st) = received fn st"
  by (auto simp: received_def emit_def filter_map o_def filter_empty_conv)

lemma fns_emit [simp]: "fns (emit c st) = fns st"
  by (simp add: emit_def)

lemma received_backing [simp]: "received fn (st\<lparr>backing := b\<rparr>) = received fn st"
  by (simp add: received_def)

text \<open>No call but \<open>subscribe\<close> and the unsubscribe handle changes the listener set.\<close>

lemma fns_set' [simp]: "fns (set' h now k v opts st) = fns st"
  by (simp add: set'_def split: option.splits sum.splits)

lemma fns_get [simp]: "fns (snd (get h now k st)) = fns st"
  by (simp add: get_def Let_def split: sum.splits)

lemma fns_has [simp]: "fns (snd (has h now k st)) = fns st"
  by (simp add: snd_has)

lemma fns_remove [simp]: "fns (snd (remove k st)) = fns st"
  by (simp add: remove_def split: sum.splits)

lemma fns_clear [simp]: "fns (snd (clear st)) = fns st"
  by (simp add: clear_def split: sum.splits)

lemma fns_keys_loop [simp]: "fns (snd (keys_loop h clock i ks st)) = fns st"
proof (induction h clock i ks st rule: keys_loop.induct)
  case (1 h clock i ks st)
  show ?case
    using "1.IH" by (subst keys_loop.simps) (auto split: option.splits)
qed

lemma fns_keys [simp]: "fns (snd (keys h clock st)) = fns st"
  by (simp add: keys_def)

lemma fns_withPrefix_clear_loop [simp]: "fns (snd (withPrefix_clear_loop prefix ks st)) = fns st"
proof (induction ks arbitrary: st)
  case Nil
  then show ?case by simp
next
  case (Cons k ks)
  from Cons.IH [of "snd (remove k st)"] Cons.IH [of st] show ?case
    by (simp add: case_prod_beta split: sum.splits)
qed

lemma fns_perform:
  "fns (perform h c st) =
     (case c of
        Call_subscribe fn \<Rightarrow> (if fn \<in> set (fns st) then fns st else fns st @ [fn])
      | Call_unsubscribe fn \<Rightarrow> removeAll fn (fns st)
      | _ \<Rightarrow> fns st)"
  by (cases c)
    (simp_all add: subscribe_def on_def unsubscribe_def withPrefix_set_def withPrefix_get_def
      withPrefix_has_def withPrefix_remove_def withPrefix_clear_def withPrefix_keys_def
      case_prod_beta)

text \<open>The listener set of a store built by \<open>make\<close> holds no listener twice, and no call
  changes that.\<close>

lemma distinct_fns_make: "distinct (fns (make store))"
  by (simp add: make_def)

lemma distinct_fns_perform: "distinct (fns st) \<Longrightarrow> distinct (fns (perform h c st))"
  by (simp add: fns_perform distinct_removeAll split: call.splits)

lemma distinct_fns_perform_all: "distinct (fns st) \<Longrightarrow> distinct (fns (perform_all h cs st))"
  by (induction cs arbitrary: st) (simp_all add: distinct_fns_perform)

text \<open>A listener that is not registered hears nothing of a call.\<close>

lemma set'_deaf:
  "fn \<notin> set (fns st) \<Longrightarrow> received fn (set' h now k v opts st) = received fn st"
  by (simp add: set'_def received_emit_out split: option.splits sum.splits)

lemma get_deaf:
  "fn \<notin> set (fns st) \<Longrightarrow> received fn (snd (get h now k st)) = received fn st"
  by (simp add: get_def Let_def received_emit_out split: sum.splits)

lemma has_deaf:
  "fn \<notin> set (fns st) \<Longrightarrow> received fn (snd (has h now k st)) = received fn st"
  by (simp add: snd_has get_deaf)

lemma remove_deaf:
  "fn \<notin> set (fns st) \<Longrightarrow> received fn (snd (remove k st)) = received fn st"
  by (simp add: remove_def received_emit_out split: sum.splits)

lemma clear_deaf:
  "fn \<notin> set (fns st) \<Longrightarrow> received fn (snd (clear st)) = received fn st"
  by (simp add: clear_def received_emit_out split: sum.splits)

lemma keys_loop_deaf:
  "fn \<notin> set (fns st) \<Longrightarrow> received fn (snd (keys_loop h clock i ks st)) = received fn st"
proof (induction h clock i ks st rule: keys_loop.induct)
  case (1 h clock i ks st)
  show ?case
    using "1.IH" "1.prems" has_deaf [OF "1.prems", of h "clock i"]
    by (subst keys_loop.simps) (auto split: option.splits)
qed

lemma keys_deaf:
  "fn \<notin> set (fns st) \<Longrightarrow> received fn (snd (keys h clock st)) = received fn st"
  by (simp add: keys_def keys_loop_deaf)

lemma withPrefix_clear_loop_deaf:
  "fn \<notin> set (fns st) \<Longrightarrow>
     received fn (snd (withPrefix_clear_loop prefix ks st)) = received fn st"
proof (induction ks arbitrary: st)
  case Nil
  then show ?case by simp
next
  case (Cons k ks)
  have "fn \<notin> set (fns (snd (remove k st)))"
    using Cons.prems by simp
  from remove_deaf [OF Cons.prems, of k] Cons.IH [OF this] Cons.IH [OF Cons.prems]
  show ?case
    by (auto split: prod.splits sum.splits)
qed

lemma perform_deaf:
  assumes "c \<noteq> Call_subscribe fn" "fn \<notin> set (fns st)"
  shows "fn \<notin> set (fns (perform h c st)) \<and> received fn (perform h c st) = received fn st"
proof
  show "fn \<notin> set (fns (perform h c st))"
    using assms by (auto simp: fns_perform split: call.splits)
  show "received fn (perform h c st) = received fn st"
  proof (cases c)
    case (Call_prefix_clear clock prefix)
    have "fn \<notin> set (fns (snd (keys h clock st)))"
      using assms(2) by simp
    from withPrefix_clear_loop_deaf [OF this] keys_deaf [OF assms(2)] show ?thesis
      by (simp add: Call_prefix_clear withPrefix_clear_def case_prod_beta)
  next
    case (Call_subscribe fn')
    then show ?thesis
      by (simp add: subscribe_def on_def received_def)
  next
    case (Call_unsubscribe fn')
    then show ?thesis
      by (simp add: unsubscribe_def received_def)
  qed (use assms in \<open>simp_all add: set'_deaf get_deaf has_deaf remove_deaf clear_deaf keys_deaf
      withPrefix_set_def withPrefix_get_def withPrefix_has_def withPrefix_remove_def
      withPrefix_keys_def case_prod_beta\<close>)
qed

lemma perform_all_deaf:
  "Call_subscribe fn \<notin> set cs \<Longrightarrow> fn \<notin> set (fns st) \<Longrightarrow>
     received fn (perform_all h cs st) = received fn st"
proof (induction cs arbitrary: st)
  case Nil
  then show ?case by simp
next
  case (Cons c cs)
  from Cons.prems have c: "c \<noteq> Call_subscribe fn" and cs: "Call_subscribe fn \<notin> set cs"
    by auto
  from perform_deaf [OF c Cons.prems(2), of h] Cons.IH [OF cs, of "perform h c st"]
  show ?case by simp
qed

text \<open>
  C9. On a store whose listener set holds no listener twice, let \<open>fn\<close> subscribe, then
  \<open>set("x", 1)\<close> (a write that succeeds), \<open>remove("x")\<close> and \<open>clear()\<close> be performed, then
  \<open>fn\<close> unsubscribe. In that time \<open>fn\<close> is called with \<open>Set{x}\<close>, \<open>Remove{x}\<close>,
  \<open>Clear\<close>, in this order and with nothing else; whatever calls \<open>cs\<close> follow, short of
  subscribing \<open>fn\<close> again, \<open>fn\<close> is not called any more; and invoking the unsubscribe
  handle a second time leaves every state as the first invocation left it.
\<close>

theorem C9_subscriber_scenario:
  assumes set_fns: "distinct (fns st)"
    and ser: "JSON_stringify h (payload now (JNum 1) None) = Some s"
    and quota: "\<not> setItem_throws (backing st) (entries (backing st)) ''x'' s"
    and later: "Call_subscribe fn \<notin> set cs"
  shows "received fn
           (perform_all h
              [Call_subscribe fn, Call_set now ''x'' (JNum 1) None, Call_remove ''x'',
               Call_clear, Call_unsubscribe fn] st)
         = received fn st @ [ChSet ''x'', ChRemove ''x'', ChClear]
       \<and> received fn
           (perform_all h cs
              (perform_all h
                 [Call_subscribe fn, Call_set now ''x'' (JNum 1) None, Call_remove ''x'',
                  Call_clear, Call_unsubscribe fn] st))
         = received fn st @ [ChSet ''x'', ChRemove ''x'', ChClear]
       \<and> unsubscribe fn (unsubscribe fn st') = unsubscribe fn st'"
proof -
  let ?st1 = "subscribe fn st"
  let ?st2 = "set' h now ''x'' (JNum 1) None ?st1"
  let ?st3 = "snd (remove ''x'' ?st2)"
  let ?st4 = "snd (clear ?st3)"
  let ?st5 = "unsubscribe fn ?st4"
  have run: "perform_all h
      [Call_subscribe fn, Call_set now ''x'' (JNum 1) None, Call_remove ''x'',
       Call_clear, Call_unsubscribe fn] st = ?st5"
    by simp
  have d1: "distinct (fns ?st1)" and in1: "fn \<in> set (fns ?st1)"
    and r1: "received fn ?st1 = received fn st" and b1: "backing ?st1 = backing st"
    using set_fns by (simp_all add: subscribe_def on_def received_def)
  have st2: "?st2 = emit (ChSet ''x'')
      (?st1\<lparr>backing := (backing st)\<lparr>entries := AList.update ''x'' s (entries (backing st))\<rparr>\<rparr>)"
    using ser quota by (simp add: set'_def setItem_def b1)
  have f2: "fns ?st2 = fns ?st1"
    by (simp add: st2)
  have r2: "received fn ?st2 = received fn st @ [ChSet ''x'']"
    using d1 in1 r1 by (simp add: st2 received_emit_in)
  have f3: "fns ?st3 = fns ?st1"
    by (simp add: remove_def f2 split: sum.splits)
  have r3: "received fn ?st3 = received fn ?st2 @ [ChRemove ''x'']"
    using d1 in1 by (simp add: remove_def received_emit_in f2 split: sum.splits)
  have f4: "fns ?st4 = fns ?st1"
    by (simp add: clear_def f3 split: sum.splits)
  have r4: "received fn ?st4 = received fn ?st3 @ [ChClear]"
    using d1 in1 by (simp add: clear_def received_emit_in f3 split: sum.splits)
  have r5: "received fn ?st5 = received fn st @ [ChSet ''x'', ChRemove ''x'', ChClear]"
    by (simp add: unsubscribe_def received_def r4 [unfolded received_def]
        r3 [unfolded received_def] r2 [unfolded received_def])
  have out: "fn \<notin> set (fns ?st5)"
    by (simp add: unsubscribe_def)
  have after: "received fn (perform_all h cs ?st5) = received fn ?st5"
    by (rule perform_all_deaf [OF later out])
  have idem: "unsubscribe fn (unsubscribe fn st') = unsubscribe fn st'"
    by (simp add: unsubscribe_def)
  show ?thesis
    unfolding run using r5 after idem by simp
qed

text \<open>The scenario of the test suite on an empty in-memory store, with listener 7; then
  \<open>set("y", 2)\<close> and \<open>clear()\<close> after the unsubscribe; and the handle invoked twice.\<close>

theorem C9_subscriber_scenario_witness:
  "received 7
     (perform_all demo_host
        [Call_subscribe 7, Call_set 0 ''x'' (JNum 1) None, Call_remove ''x'',
         Call_clear, Call_unsubscribe 7] (make None))
     = [ChSet ''x'', ChRemove ''x'', ChClear]
   \<and> received 7
       (perform_all demo_host [Call_set 1 ''y'' (JNum 2) None, Call_clear]
          (perform_all demo_host
             [Call_subscribe 7, Call_set 0 ''x'' (JNum 1) None, Call_remove ''x'',
              Call_clear, Call_unsubscribe 7] (make None)))
     = [ChSet ''x'', ChRemove ''x'', ChClear]
   \<and> unsubscribe 7 (unsubscribe 7 (subscribe 7 (make None))) = make None"
proof -
  have set_fns: "distinct (fns (make None))" and none: "received 7 (make None) = []"
    by (simp_all add: make_def received_def)
  have ser: \<open>JSON_stringify demo_host (payload 0 (JNum 1) None) = Some ''{"v":1}''\<close>
    by (simp add: payload_def opts_ttl_def demo_host_def demo_json_def)
  have quota: "\<not> setItem_throws (backing (make None)) (entries (backing (make None))) k s" for k s
    by (simp add: make_def memoryStorage_def)
  have later: "Call_subscribe 7 \<notin> set [Call_set 1 ''y'' (JNum 2) None, Call_clear]"
    by simp
  have undo: "unsubscribe 7 (subscribe 7 (make None)) = make None"
    by (simp add: unsubscribe_def subscribe_def on_def make_def)
  show ?thesis
    using C9_subscriber_scenario [OF set_fns ser quota later, of "subscribe 7 (make None)"]
      none undo
    by simp
qed

end
